theory Spec2Isabelle
  imports Complex_Main "HOL-Library.Multiset" "HOL-Library.Log_Nat"
begin

section \<open>The trainer of \<open>trainer.py\<close> as an interleaving state machine\<close>

text \<open>
  \<open>train\<close> runs one driver thread and \<open>threads\<close> worker threads (\<open>trainer_thread\<close>) that
  share a FIFO queue, a lock and a quit event. The model below gives every thread a program
  counter; one step of a thread is one primitive operation of the source (a \<open>qsize\<close>, a
  \<open>get\<close>, a \<open>put\<close>, taking or releasing the lock, one loop test). A run is a list of events:
  each event names the thread that moves and carries the values the outside world chooses at
  that step (the permutation \<open>shuffle\<close> produces, the index \<open>choice\<close> draws, the outcome of
  a match). A blocking operation that cannot proceed (\<open>get\<close> on an empty queue, taking a held
  lock, \<open>join\<close> on a live thread) has no step.

  Agents are object identities (natural numbers); ratings live in a store, because workers
  update the rating of objects that the driver's list refers to.
\<close>

subsection \<open>Arguments of \<open>train\<close>\<close>

text \<open>
  The six arguments of \<open>train\<close>. \<open>fraction_kept\<close> and \<open>mutation_rate\<close> are the numbers the
  caller writes; the \<open>float\<close> that \<open>train\<close> receives is the binary64 value nearest to the
  number (\<open>fl_round\<close> below). \<open>new_elo\<close> is the rating a newly constructed \<open>NNPlayer()\<close> carries; class
  \<open>NNPlayer\<close> is imported from a module that is not part of the source at hand, so this value
  is a parameter.
\<close>

record config =
  population_size :: int
  fraction_kept :: rat
  generations :: int
  sub_generations :: int
  mutation_rate :: rat
  threads :: int
  new_elo :: int

subsection \<open>Data\<close>

text \<open>
  What is known of an agent's network is how it was built: \<open>NNPlayer()\<close> gives \<open>Fresh\<close>,
  \<open>mutate(rate)\<close> wraps the genome it is applied to.
\<close>

datatype genome = Fresh | Mutated rat genome

datatype error = OddPopulationError | IndexError | OverflowError | ValueError

text \<open>What a match does: it raises, or it ends and \<open>update_elo\<close> sets two ratings.\<close>

datatype outcome = Crash | Result int int

datatype event = Driver "nat list" nat | Worker nat outcome

text \<open>Program counter of \<open>trainer_thread\<close> (lines 27 to 37).\<close>

datatype wpc =
    W_outer
  | W_inner
  | W_acquire
  | W_check
  | W_get1
  | W_get2 nat
  | W_release nat nat
  | W_play nat nat
  | W_update nat nat
  | W_done
  | W_crashed nat nat

text \<open>Program counter of \<open>train\<close> with \<open>run_generation\<close> inlined (lines 83 to 116).\<close>

datatype dpc =
    D_start
  | D_spawn nat
  | D_gen nat
  | D_sub nat nat
  | D_put nat nat nat
  | D_wait nat nat
  | D_select nat
  | D_sort nat
  | D_repro nat nat
  | D_finally
  | D_join nat
  | D_returned "nat list"
  | D_raised error

record state =
  d_pc :: dpc
  players :: "nat list"
  exc :: "error option"
  quit :: bool
  lock :: "nat option"
  queue :: "nat list"
  workers :: "wpc list"
  elo :: "nat \<Rightarrow> int"
  genome :: "nat \<Rightarrow> genome"
  next_id :: nat
  played :: "(nat \<times> nat) list"
  touched :: bool

definition init :: "config \<Rightarrow> state" where
  "init cfg = \<lparr> d_pc = D_start, players = [], exc = None, quit = False, lock = None,
     queue = [], workers = [], elo = (\<lambda>_. new_elo cfg), genome = (\<lambda>_. Fresh),
     next_id = 0, played = [], touched = False \<rparr>"

subsection \<open>SELECT: \<open>players.sort(reverse=True)\<close> and \<open>players[:int(len(players) * fraction_kept)]\<close>\<close>

text \<open>
  Modelled from the spec: the order on \<open>NNPlayer\<close> objects that \<open>sort\<close> uses is defined in the
  missing module; the spec says that agents are ordered by rating. Python's
  \<open>sort(reverse=True)\<close> is stable: it sorts the reversed list ascending and reverses the
  result.
\<close>

definition sort_desc :: "(nat \<Rightarrow> int) \<Rightarrow> nat list \<Rightarrow> nat list" where
  "sort_desc r ps = rev (sort_key r (rev ps))"

text \<open>
  Binary64 arithmetic on rationals. For a positive \<open>x\<close>, \<open>ilog2 x\<close> is the exponent \<open>e\<close> with
  \<open>2 powi e \<le> x < 2 powi (e + 1)\<close>. \<open>fl_round x\<close> is the binary64 value nearest to \<open>x\<close>, ties
  going to the even significand: 53 significant bits, and a fixed spacing of \<open>2 powi (-1074)\<close>
  below \<open>2 powi (-1022)\<close>. A result of magnitude \<open>2 powi 1024\<close> or more, that is, of binade
  exponent 1024 or more, stands for an infinity.
\<close>

definition ilog2 :: "rat \<Rightarrow> int" where
  "ilog2 x = (if 1 \<le> x then bitlen \<lfloor>x\<rfloor> - 1 else - bitlen (\<lceil>1 / x\<rceil> - 1))"

definition round_half_even :: "rat \<Rightarrow> int" where
  "round_half_even q =
     (let m = \<lfloor>q\<rfloor>; r = q - of_int m in
      if r < 1 / 2 then m else if 1 / 2 < r then m + 1 else if even m then m else m + 1)"

definition fl_round :: "rat \<Rightarrow> rat" where
  "fl_round x =
     (if x = 0 then 0
      else let u = 2 powi (max (ilog2 \<bar>x\<bar>) (- 1022) - 52)
           in sgn x * of_int (round_half_even (\<bar>x\<bar> / u)) * u)"

definition fl_finite :: "rat \<Rightarrow> bool" where
  "fl_finite x \<longleftrightarrow> x = 0 \<or> ilog2 \<bar>x\<bar> < 1024"

text \<open>\<open>int(x)\<close> on a finite float truncates towards zero.\<close>

definition py_int :: "rat \<Rightarrow> int" where
  "py_int x = (if 0 \<le> x then \<lfloor>x\<rfloor> else \<lceil>x\<rceil>)"

text \<open>
  \<open>int(len(players) * fraction_kept)\<close>: the length is converted to a float, the product is
  rounded once, and \<open>int\<close> truncates it. Converting a length that is too large raises
  \<open>OverflowError\<close>, as does \<open>int\<close> of an infinity; \<open>int\<close> of a NaN (zero times an infinity)
  raises \<open>ValueError\<close>.
\<close>

definition kept_count :: "nat \<Rightarrow> rat \<Rightarrow> error + int" where
  "kept_count n fk =
     (let a = fl_round (of_nat n); f = fl_round fk; p = fl_round (a * f) in
      if \<not> fl_finite a then Inl OverflowError
      else if \<not> fl_finite f then (if n = 0 then Inl ValueError else Inl OverflowError)
      else if \<not> fl_finite p then Inl OverflowError
      else Inr (py_int p))"

text \<open>The slice \<open>xs[:k]\<close>: a negative \<open>k\<close> counts from the end.\<close>

definition py_prefix :: "int \<Rightarrow> 'a list \<Rightarrow> 'a list" where
  "py_prefix k xs = (if 0 \<le> k then take (nat k) xs else take (length xs - nat (- k)) xs)"

subsection \<open>The driver: \<open>train\<close>\<close>

text \<open>
  \<open>sort\<close> compares the agents one pair at a time, and a worker may write a rating between two
  comparisons. The sort therefore takes two steps of the driver: \<open>D_select\<close> begins it and
  clears \<open>touched\<close>, every \<open>update_elo\<close> of a worker sets \<open>touched\<close>, and \<open>D_sort\<close> ends it.
  If no rating was written in between, the list is ranked by the ratings; otherwise the
  comparisons were inconsistent and all that is known of the result is that it is a
  permutation of the list (the event supplies it). The slice follows in the same step, as it
  depends on positions only.
\<close>

text \<open>A thread can be joined once it has returned or died of an exception.\<close>

fun terminated :: "wpc \<Rightarrow> bool" where
  "terminated W_done = True"
| "terminated (W_crashed _ _) = True"
| "terminated _ = False"

text \<open>
  One iteration of \<open>while len(players) < population_size\<close> (lines 104 to 111). The counter
  \<open>i\<close> is passed on unchanged, as the loop body never assigns it. \<open>choice\<close> raises
  \<open>IndexError\<close> on an empty list; the exception leaves the \<open>try\<close> block for \<open>finally\<close>.
  Modelled from the spec: \<open>copy\<close> is a deep copy, so the clone starts with the rating and the
  genome of its original.
\<close>

definition reproduce_step :: "config \<Rightarrow> nat \<Rightarrow> nat \<Rightarrow> nat \<Rightarrow> state \<Rightarrow> state" where
  "reproduce_step cfg k g i s =
     (if int (length (players s)) < population_size cfg then
        (if i mod 2 = 0 then
           (if players s = [] then s\<lparr>exc := Some IndexError, d_pc := D_finally\<rparr>
            else
              let src = players s ! (k mod length (players s)); n = next_id s in
              s\<lparr>genome := (genome s)(n := Mutated (mutation_rate cfg) (genome s src)),
                elo := (elo s)(n := elo s src),
                next_id := Suc n,
                players := players s @ [n],
                d_pc := D_repro g i\<rparr>)
         else
           let n = next_id s in
           s\<lparr>genome := (genome s)(n := Fresh),
             elo := (elo s)(n := new_elo cfg),
             next_id := Suc n,
             players := players s @ [n],
             d_pc := D_repro g i\<rparr>)
      else s\<lparr>d_pc := D_gen (Suc g)\<rparr>)"

definition driver_step :: "config \<Rightarrow> nat list \<Rightarrow> nat \<Rightarrow> state \<Rightarrow> state option" where
  "driver_step cfg perm k s =
     (case d_pc s of
        D_start \<Rightarrow>
          if population_size cfg mod 2 \<noteq> 0 then Some (s\<lparr>d_pc := D_raised OddPopulationError\<rparr>)
          else Some (s\<lparr>players := [next_id s ..< next_id s + nat (population_size cfg)],
                       next_id := next_id s + nat (population_size cfg),
                       d_pc := D_spawn 0\<rparr>)
      | D_spawn t \<Rightarrow>
          if int t < threads cfg
          then Some (s\<lparr>workers := workers s @ [W_outer], d_pc := D_spawn (Suc t)\<rparr>)
          else Some (s\<lparr>d_pc := D_gen 0\<rparr>)
      | D_gen g \<Rightarrow>
          if int g < generations cfg then
            (if players s = [] then Some (s\<lparr>exc := Some IndexError, d_pc := D_finally\<rparr>)
             else Some (s\<lparr>d_pc := D_sub g 0\<rparr>))
          else Some (s\<lparr>d_pc := D_finally\<rparr>)
      | D_sub g n \<Rightarrow>
          if int n < sub_generations cfg then
            (if mset perm = mset (players s)
             then Some (s\<lparr>players := perm, d_pc := D_put g n 0\<rparr>)
             else None)
          else Some (s\<lparr>d_pc := D_select g\<rparr>)
      | D_put g n j \<Rightarrow>
          if j < length (players s)
          then Some (s\<lparr>queue := queue s @ [players s ! j], d_pc := D_put g n (Suc j)\<rparr>)
          else Some (s\<lparr>d_pc := D_wait g n\<rparr>)
      | D_wait g n \<Rightarrow>
          if length (queue s) > 1 then Some s else Some (s\<lparr>d_pc := D_sub g (Suc n)\<rparr>)
      | D_select g \<Rightarrow> Some (s\<lparr>touched := False, d_pc := D_sort g\<rparr>)
      | D_sort g \<Rightarrow>
          if touched s \<and> mset perm \<noteq> mset (players s) then None
          else
            let ranked = (if touched s then perm else sort_desc (elo s) (players s)) in
            (case kept_count (length (players s)) (fraction_kept cfg) of
               Inl e \<Rightarrow> Some (s\<lparr>players := ranked, exc := Some e, d_pc := D_finally\<rparr>)
             | Inr c \<Rightarrow> Some (s\<lparr>players := py_prefix c ranked, d_pc := D_repro g 0\<rparr>))
      | D_repro g i \<Rightarrow> Some (reproduce_step cfg k g i s)
      | D_finally \<Rightarrow> Some (s\<lparr>quit := True, d_pc := D_join 0\<rparr>)
      | D_join t \<Rightarrow>
          if t < length (workers s) then
            (if terminated (workers s ! t) then Some (s\<lparr>d_pc := D_join (Suc t)\<rparr>) else None)
          else Some (s\<lparr>exc := None, d_pc := D_returned (players s)\<rparr>)
      | D_returned ps \<Rightarrow> None
      | D_raised e \<Rightarrow> None)"

subsection \<open>A worker: \<open>trainer_thread\<close>\<close>

definition set_pc :: "nat \<Rightarrow> wpc \<Rightarrow> state \<Rightarrow> state" where
  "set_pc i w s = s\<lparr>workers := (workers s)[i := w]\<rparr>"

definition worker_step :: "nat \<Rightarrow> outcome \<Rightarrow> state \<Rightarrow> state option" where
  "worker_step i oc s =
     (if i < length (workers s) then
        (case workers s ! i of
           W_outer \<Rightarrow> Some (set_pc i (if quit s then W_done else W_inner) s)
         | W_inner \<Rightarrow> Some (set_pc i (if length (queue s) > 1 then W_acquire else W_outer) s)
         | W_acquire \<Rightarrow>
             (case lock s of
                None \<Rightarrow> Some (set_pc i W_check (s\<lparr>lock := Some i\<rparr>))
              | Some h \<Rightarrow> None)
         | W_check \<Rightarrow>
             if length (queue s) < 2 then Some (set_pc i W_outer (s\<lparr>lock := None\<rparr>))
             else Some (set_pc i W_get1 s)
         | W_get1 \<Rightarrow>
             (case queue s of
                [] \<Rightarrow> None
              | p # q \<Rightarrow> Some (set_pc i (W_get2 p) (s\<lparr>queue := q\<rparr>)))
         | W_get2 p1 \<Rightarrow>
             (case queue s of
                [] \<Rightarrow> None
              | p # q \<Rightarrow> Some (set_pc i (W_release p1 p) (s\<lparr>queue := q\<rparr>)))
         | W_release p1 p2 \<Rightarrow> Some (set_pc i (W_play p1 p2) (s\<lparr>lock := None\<rparr>))
         | W_play p1 p2 \<Rightarrow>
             (case oc of
                Crash \<Rightarrow> Some (set_pc i (W_crashed p1 p2) s)
              | Result r1 r2 \<Rightarrow> Some (set_pc i (W_update p1 p2) s))
         | W_update p1 p2 \<Rightarrow>
             (case oc of
                Crash \<Rightarrow> Some (set_pc i (W_crashed p1 p2) s)
              | Result r1 r2 \<Rightarrow>
                  Some (set_pc i W_inner
                    (s\<lparr>elo := (elo s)(p1 := r1, p2 := r2), played := played s @ [(p1, p2)],
                       touched := True\<rparr>)))
         | W_done \<Rightarrow> None
         | W_crashed p1 p2 \<Rightarrow> None)
      else None)"

subsection \<open>Runs\<close>

fun step :: "config \<Rightarrow> event \<Rightarrow> state \<Rightarrow> state option" where
  "step cfg (Driver perm k) s = driver_step cfg perm k s"
| "step cfg (Worker i oc) s = worker_step i oc s"

fun exec :: "config \<Rightarrow> event list \<Rightarrow> state \<Rightarrow> state option" where
  "exec cfg [] s = Some s"
| "exec cfg (e # es) s = (case step cfg e s of None \<Rightarrow> None | Some s' \<Rightarrow> exec cfg es s')"

section \<open>Predicates on states and example configurations\<close>

subsection \<open>Predicates used as invariants of runs\<close>

text \<open>With an odd population size the machine has two states only: the initial one and the
  one in which \<open>OddPopulationError\<close> has been raised.\<close>

definition odd_halt :: "config \<Rightarrow> state \<Rightarrow> bool" where
  "odd_halt cfg s \<longleftrightarrow> s = init cfg \<or> s = (init cfg)\<lparr>d_pc := D_raised OddPopulationError\<rparr>"

definition not_raised :: "state \<Rightarrow> bool" where
  "not_raised s \<longleftrightarrow> (\<forall>e. d_pc s \<noteq> D_raised e)"

text \<open>The critical section of a worker is the body of \<open>with queue_lock\<close> (lines 29 to 33);
  \<open>need\<close> is the number of agents a worker inside it is still going to take.\<close>

fun in_cs :: "wpc \<Rightarrow> bool" where
  "in_cs W_check = True"
| "in_cs W_get1 = True"
| "in_cs (W_get2 _) = True"
| "in_cs (W_release _ _) = True"
| "in_cs _ = False"

fun need :: "wpc \<Rightarrow> nat" where
  "need W_get1 = 2"
| "need (W_get2 _) = 1"
| "need _ = 0"

definition worker_ok :: "nat option \<Rightarrow> nat \<Rightarrow> nat \<Rightarrow> wpc \<Rightarrow> bool" where
  "worker_ok lk n i w \<longleftrightarrow> (in_cs w \<longleftrightarrow> lk = Some i) \<and> need w \<le> n"

definition linv :: "nat option \<Rightarrow> nat \<Rightarrow> wpc list \<Rightarrow> bool" where
  "linv lk n ws \<longleftrightarrow>
     (\<forall>h. lk = Some h \<longrightarrow> h < length ws) \<and> (\<forall>i < length ws. worker_ok lk n i (ws ! i))"

definition lock_inv :: "state \<Rightarrow> bool" where
  "lock_inv s \<longleftrightarrow> linv (lock s) (length (queue s)) (workers s)"

text \<open>Bounds on the queue length outside the wait loop, the quit event, and the list of
  worker threads, by program counter of the driver.\<close>

definition drain_inv :: "state \<Rightarrow> bool" where
  "drain_inv s \<longleftrightarrow>
     (case d_pc s of
        D_put g n j \<Rightarrow> length (queue s) \<le> Suc j
      | D_wait g n \<Rightarrow> True
      | _ \<Rightarrow> length (queue s) \<le> 1)"



subsection \<open>Example configurations and schedules\<close>

definition cfg_odd :: config where
  "cfg_odd = \<lparr> population_size = 3, fraction_kept = 1 / 2, generations = 1,
     sub_generations = 1, mutation_rate = 0, threads = 1, new_elo = 1000 \<rparr>"

definition cfg_two :: config where
  "cfg_two = \<lparr> population_size = 2, fraction_kept = 1, generations = 1,
     sub_generations = 1, mutation_rate = 0, threads = 1, new_elo = 1000 \<rparr>"

definition cfg_four :: config where
  "cfg_four = \<lparr> population_size = 4, fraction_kept = 1 / 2, generations = 1,
     sub_generations = 1, mutation_rate = 0, threads = 1, new_elo = 1000 \<rparr>"

text \<open>Two agents, one worker: the driver has enqueued both agents and waits; then the
  worker has taken the first agent.\<close>

definition to_wait_two :: "event list" where
  "to_wait_two = replicate 8 (Driver [0, 1] 0)"

definition take_first :: "event list" where
  "take_first = replicate 5 (Worker 0 Crash)"

text \<open>Ten agents and the binary64 value nearest to 0.7; fifty agents and the decimal 0.58.\<close>

definition cfg_ten :: config where
  "cfg_ten = \<lparr> population_size = 10,
     fraction_kept = 3152519739159347 / 4503599627370496, generations = 1,
     sub_generations = 1, mutation_rate = 0, threads = 1, new_elo = 1000 \<rparr>"

definition cfg_fifty :: config where
  "cfg_fifty = \<lparr> population_size = 50, fraction_kept = 29 / 50, generations = 1,
     sub_generations = 1, mutation_rate = 0, threads = 1, new_elo = 1000 \<rparr>"

text \<open>A run of \<open>n\<close> agents, one worker and one sub-generation in which the worker plays every
  match, without changing a rating, before the driver sorts and slices.\<close>

definition quiet_round :: "nat \<Rightarrow> event list" where
  "quiet_round n =
     replicate (n + 6) (Driver [0..<n] 0)
     @ replicate (2 + 8 * (n div 2)) (Worker 0 (Result 1000 1000))
     @ replicate 4 (Driver [] 0)"

text \<open>Where the driver stands and how many agents its list holds.\<close>

definition survivors :: "state \<Rightarrow> dpc \<times> nat" where
  "survivors s = (d_pc s, length (players s))"

text \<open>The driver at the end of a sort, no rating written since it began: four agents rated
  1016, 984, 990 and 1010; fifty agents of equal rating.\<close>

definition at_sort :: state where
  "at_sort = (init cfg_four)\<lparr>d_pc := D_sort 0, players := [0, 1, 2, 3], next_id := 4,
     elo := (\<lambda>_. 1000)(0 := 1016, 1 := 984, 2 := 990, 3 := 1010)\<rparr>"

definition at_sort_fifty :: state where
  "at_sort_fifty = (init cfg_fifty)\<lparr>d_pc := D_sort 0, players := [0..<50], next_id := 50\<rparr>"

text \<open>Two agents, one worker, two sub-generations. The worker takes the pair of the first
  sub-generation and starts its match; the driver then finds the queue empty, shuffles and
  enqueues the first agent of the second sub-generation.\<close>

definition cfg_two_rounds :: config where
  "cfg_two_rounds = \<lparr> population_size = 2, fraction_kept = 1, generations = 1,
     sub_generations = 2, mutation_rate = 0, threads = 1, new_elo = 1000 \<rparr>"

text \<open>What is observed of a state: the driver's position and list, the workers, the queue and
  the log of rating updates.\<close>

definition view :: "state \<Rightarrow> dpc \<times> nat list \<times> wpc list \<times> nat list \<times> (nat \<times> nat) list" where
  "view s = (d_pc s, players s, workers s, queue s, played s)"

definition take_pair :: "event list" where
  "take_pair = replicate 7 (Worker 0 (Result 1000 1000))"

definition next_round :: "event list" where
  "next_round = replicate 3 (Driver [0, 1] 0)"





section \<open>Properties\<close>

lemmas run_defs = init_def driver_step_def worker_step_def set_pc_def
  py_int_def py_prefix_def sort_desc_def reproduce_step_def

subsection \<open>Runs and invariants\<close>

lemma exec_append:
  "exec cfg (es @ es') s = (case exec cfg es s of None \<Rightarrow> None | Some s' \<Rightarrow> exec cfg es' s')"
  by (induction es arbitrary: s) (auto split: option.splits)

lemma exec_invariant:
  assumes pres: "\<And>e s s'. I s \<Longrightarrow> step cfg e s = Some s' \<Longrightarrow> I s'"
    and "I s" and "exec cfg es s = Some s'"
  shows "I s'"
  using assms(2,3)
proof (induction es arbitrary: s)
  case Nil
  then show ?case by simp
next
  case (Cons e es)
  then obtain s1 where s1: "step cfg e s = Some s1" and r: "exec cfg es s1 = Some s'"
    by (auto split: option.splits)
  from pres[OF Cons.prems(1) s1] have "I s1" .
  from Cons.IH[OF this r] show ?case .
qed

text \<open>A worker step leaves the driver's variables alone.\<close>

lemma worker_step_frame:
  assumes "worker_step i oc s = Some s'"
  shows "d_pc s' = d_pc s" "players s' = players s" "exc s' = exc s" "quit s' = quit s"
    "genome s' = genome s" "next_id s' = next_id s" "length (workers s') = length (workers s)"
  using assms
  by (auto simp: worker_step_def set_pc_def
      split: if_splits wpc.splits option.splits list.splits outcome.splits)

subsection \<open>The parity check (line 83)\<close>

lemma odd_halt_step:
  assumes "odd (population_size cfg)" "odd_halt cfg s" "step cfg e s = Some s'"
  shows "odd_halt cfg s'"
proof (cases e)
  case (Driver perm k)
  with assms show ?thesis
    by (auto simp: odd_halt_def driver_step_def init_def odd_iff_mod_2_eq_one)
next
  case (Worker i oc)
  with assms show ?thesis
    by (auto simp: odd_halt_def worker_step_def init_def)
qed

lemma not_raised_step:
  assumes "even (population_size cfg)" "not_raised s" "step cfg e s = Some s'"
  shows "not_raised s'"
proof (cases e)
  case (Driver perm k)
  with assms show ?thesis
    by (auto simp: not_raised_def driver_step_def reproduce_step_def Let_def
        even_iff_mod_2_eq_zero split: dpc.splits if_splits sum.splits)
next
  case (Worker i oc)
  with assms worker_step_frame(1)[of i oc s s'] show ?thesis
    by (simp add: not_raised_def)
qed

text \<open>
  C7. With an odd \<open>population_size\<close> the first step of \<open>train\<close> raises
  \<open>OddPopulationError\<close>, and every state a run can reach is the initial state or that
  state with the error raised: no worker thread exists, no agent has been constructed, the
  queue is empty. With an even \<open>population_size\<close> no run ever raises the error.
\<close>

theorem odd_population_rejected:
  assumes "exec cfg es (init cfg) = Some s"
  shows "(odd (population_size cfg) \<longrightarrow>
            step cfg (Driver perm k) (init cfg)
              = Some ((init cfg)\<lparr>d_pc := D_raised OddPopulationError\<rparr>)
          \<and> (s = init cfg \<or> s = (init cfg)\<lparr>d_pc := D_raised OddPopulationError\<rparr>))
       \<and> (even (population_size cfg) \<longrightarrow> (\<forall>e. d_pc s \<noteq> D_raised e))"
proof (intro conjI impI)
  assume o: "odd (population_size cfg)"
  then show "step cfg (Driver perm k) (init cfg)
      = Some ((init cfg)\<lparr>d_pc := D_raised OddPopulationError\<rparr>)"
    by (simp add: driver_step_def init_def odd_iff_mod_2_eq_one)
  have "odd_halt cfg s"
  proof (rule exec_invariant[where I = "odd_halt cfg", OF _ _ assms])
    show "odd_halt cfg (init cfg)" by (simp add: odd_halt_def)
  qed (rule odd_halt_step[OF o])
  then show "s = init cfg \<or> s = (init cfg)\<lparr>d_pc := D_raised OddPopulationError\<rparr>"
    by (simp add: odd_halt_def)
next
  assume ev: "even (population_size cfg)"
  have "not_raised s"
  proof (rule exec_invariant[where I = not_raised, OF _ _ assms])
    show "not_raised (init cfg)" by (simp add: not_raised_def init_def)
  qed (rule not_raised_step[OF ev])
  then show "\<forall>e. d_pc s \<noteq> D_raised e"
    by (simp add: not_raised_def)
qed

theorem odd_population_rejected_witness:
  "(\<exists>s. exec cfg_odd [Driver [] 0] (init cfg_odd) = Some s
        \<and> odd (population_size cfg_odd)
        \<and> s = (init cfg_odd)\<lparr>d_pc := D_raised OddPopulationError\<rparr>
        \<and> workers s = [] \<and> players s = [])
   \<and> (\<exists>s. exec cfg_two [Driver [] 0, Driver [] 0, Driver [] 0] (init cfg_two) = Some s
        \<and> even (population_size cfg_two) \<and> (\<forall>e. d_pc s \<noteq> D_raised e))"
proof -
  obtain s where s: "exec cfg_odd [Driver [] 0] (init cfg_odd) = Some s"
    by (simp add: cfg_odd_def run_defs)
  have o: "odd (population_size cfg_odd)" by (simp add: cfg_odd_def)
  from s have ne: "s \<noteq> init cfg_odd" by (auto simp add: cfg_odd_def run_defs)
  from odd_population_rejected[OF s, of "[]" 0] o ne
  have a: "s = (init cfg_odd)\<lparr>d_pc := D_raised OddPopulationError\<rparr>" by blast
  then have b: "workers s = [] \<and> players s = []" by (simp add: init_def)
  obtain t where t: "exec cfg_two [Driver [] 0, Driver [] 0, Driver [] 0] (init cfg_two) = Some t"
    by (simp add: cfg_two_def run_defs)
  have e: "even (population_size cfg_two)" by (simp add: cfg_two_def)
  from odd_population_rejected[OF t, of "[]" 0] e have "\<forall>e. d_pc t \<noteq> D_raised e" by blast
  with s o a b t e show ?thesis by blast
qed

subsection \<open>SELECT (lines 101 and 102)\<close>

lemma sort_desc_mset: "mset (sort_desc r ps) = mset ps"
  by (simp add: sort_desc_def)

lemma sort_desc_sorted: "sorted_wrt (\<lambda>a b. r b \<le> r a) (sort_desc r ps)"
proof -
  have "sorted (map r (sort_key r (rev ps)))" by (rule sorted_sort_key)
  then have "sorted_wrt (\<lambda>a b. r a \<le> r b) (sort_key r (rev ps))"
    by (simp add: sorted_wrt_map)
  then show ?thesis
    by (simp add: sort_desc_def sorted_wrt_rev)
qed

lemma ilog2_spec:
  assumes "0 < x"
  shows "2 powi (ilog2 x) \<le> x \<and> x < 2 powi (ilog2 x + 1)"
proof (cases "1 \<le> x")
  case True
  then have p: "0 < \<lfloor>x\<rfloor>" by linarith
  from bitlen_bounds[OF p]
  have a: "2 ^ nat (bitlen \<lfloor>x\<rfloor> - 1) \<le> \<lfloor>x\<rfloor>" and b: "\<lfloor>x\<rfloor> < 2 ^ nat (bitlen \<lfloor>x\<rfloor>)"
    by simp_all
  from p have bl: "1 \<le> bitlen \<lfloor>x\<rfloor>" by (auto simp: bitlen_alt_def)
  have "(2::rat) powi (bitlen \<lfloor>x\<rfloor> - 1) = of_int (2 ^ nat (bitlen \<lfloor>x\<rfloor> - 1))"
    using bl by (simp add: power_int_def)
  also have "\<dots> \<le> of_int \<lfloor>x\<rfloor>" using a by (simp only: of_int_le_iff)
  also have "\<dots> \<le> x" by simp
  finally have lo: "2 powi (bitlen \<lfloor>x\<rfloor> - 1) \<le> x" .
  from b have "\<lfloor>x\<rfloor> + 1 \<le> 2 ^ nat (bitlen \<lfloor>x\<rfloor>)" by simp
  then have "of_int (\<lfloor>x\<rfloor> + 1) \<le> (of_int (2 ^ nat (bitlen \<lfloor>x\<rfloor>)) :: rat)"
    by (simp only: of_int_le_iff)
  moreover have "x < of_int (\<lfloor>x\<rfloor> + 1)" by linarith
  ultimately have "x < of_int (2 ^ nat (bitlen \<lfloor>x\<rfloor>))" by linarith
  also have "\<dots> = 2 powi (bitlen \<lfloor>x\<rfloor>)" using bl by (simp add: power_int_def)
  finally have hi: "x < 2 powi (bitlen \<lfloor>x\<rfloor> - 1 + 1)" by simp
  from lo hi True show ?thesis by (simp add: ilog2_def)
next
  case False
  define m where "m = \<lceil>1 / x\<rceil> - 1"
  define b where "b = bitlen m"
  from False assms have y: "1 < 1 / x" by (simp add: field_simps)
  then have mp: "0 < m" unfolding m_def by linarith
  from bitlen_bounds[OF mp]
  have a: "2 ^ nat (b - 1) \<le> m" and c: "m < 2 ^ nat b" by (simp_all add: b_def)
  from mp have bl: "1 \<le> b" by (auto simp: b_def bitlen_alt_def)
  have e: "ilog2 x = - b" using False by (simp add: ilog2_def m_def b_def)
  from c have "\<lceil>1 / x\<rceil> \<le> 2 ^ nat b" by (simp add: m_def)
  then have "1 / x \<le> of_int (2 ^ nat b)" by (simp only: ceiling_le_iff)
  then have "1 / x \<le> 2 ^ nat b" by simp
  with assms have "1 \<le> x * 2 ^ nat b" by (simp add: field_simps)
  then have lo: "2 powi (- b) \<le> x"
    using bl by (simp add: power_int_def field_simps)
  from a have "2 ^ nat (b - 1) < \<lceil>1 / x\<rceil>" by (simp add: m_def)
  then have "of_int (2 ^ nat (b - 1)) < 1 / x" by (simp only: less_ceiling_iff)
  then have "2 ^ nat (b - 1) < 1 / x" by simp
  with assms have "x * 2 ^ nat (b - 1) < 1" by (simp add: field_simps)
  then have "x < 1 / 2 ^ nat (b - 1)" by (simp add: field_simps)
  also have "\<dots> = 2 powi (- b + 1)"
    using bl by (cases "b = 1") (simp_all add: power_int_def field_simps nat_diff_distrib)
  finally have hi: "x < 2 powi (- b + 1)" .
  from lo hi e show ?thesis by simp
qed

lemma ilog2_small:
  assumes "0 < x" "x < 2 ^ 53"
  shows "ilog2 x \<le> 52"
proof (cases "1 \<le> x")
  case True
  from assms(2) have "\<lfloor>x\<rfloor> < 2 ^ 53"
    by (metis floor_less_iff of_int_numeral of_int_power)
  then have "bitlen \<lfloor>x\<rfloor> \<le> 53"
    using bitlen_le_iff_power[of "\<lfloor>x\<rfloor>" 53] by simp
  with True show ?thesis by (simp add: ilog2_def)
next
  case False
  have "0 \<le> bitlen (\<lceil>1 / x\<rceil> - 1)" by (rule bitlen_nonneg)
  with False show ?thesis by (simp add: ilog2_def)
qed

lemma round_half_even_between:
  assumes "of_int A \<le> q" "q \<le> of_int B"
  shows "A \<le> round_half_even q \<and> round_half_even q \<le> B"
proof -
  have lo: "A \<le> \<lfloor>q\<rfloor>" using assms(1) by (simp add: le_floor_iff)
  have hi: "\<lfloor>q\<rfloor> \<le> B" using assms(2) by (simp add: floor_le_iff)
  show ?thesis
  proof (cases "q = of_int \<lfloor>q\<rfloor>")
    case True
    then have "round_half_even q = \<lfloor>q\<rfloor>" by (simp add: round_half_even_def Let_def)
    with lo hi show ?thesis by simp
  next
    case False
    then have "of_int \<lfloor>q\<rfloor> < q" by (metis of_int_floor_le order_le_less)
    with assms(2) have "\<lfloor>q\<rfloor> < B" by (metis of_int_less_iff order_less_le_trans)
    moreover have "round_half_even q = \<lfloor>q\<rfloor> \<or> round_half_even q = \<lfloor>q\<rfloor> + 1"
      by (simp add: round_half_even_def Let_def)
    ultimately show ?thesis using lo by auto
  qed
qed

text \<open>Rounding does not cross an integer below \<open>2 ^ 53\<close>: every such integer is a binary64
  value.\<close>

lemma fl_round_between:
  assumes "0 \<le> A" "of_int A \<le> x" "x \<le> of_int B" "x < 2 ^ 53"
  shows "of_int A \<le> fl_round x \<and> fl_round x \<le> of_int B"
proof (cases "x = 0")
  case True
  with assms show ?thesis by (simp add: fl_round_def)
next
  case False
  from assms(1,2) have "0 \<le> x" by (meson of_int_0_le_iff order_trans)
  with False have xp: "0 < x" by simp
  define j where "j = 52 - max (ilog2 x) (- 1022)"
  from ilog2_small[OF xp assms(4)] have jn: "0 \<le> j" by (simp add: j_def)
  define u :: rat where "u = 2 powi (- j)"
  have u: "u = 1 / 2 ^ nat j" using jn by (simp add: u_def power_int_def field_simps)
  have fr: "fl_round x = of_int (round_half_even (x / u)) * u"
    using False xp by (simp add: fl_round_def u_def j_def Let_def)
  have q: "x / u = x * 2 ^ nat j" by (simp add: u)
  have "of_int (A * 2 ^ nat j) \<le> x / u" using assms(2) by (simp add: q)
  moreover have "x / u \<le> of_int (B * 2 ^ nat j)" using assms(3) by (simp add: q)
  ultimately have "A * 2 ^ nat j \<le> round_half_even (x / u)
      \<and> round_half_even (x / u) \<le> B * 2 ^ nat j"
    by (rule round_half_even_between)
  then have "of_int (A * 2 ^ nat j) \<le> (of_int (round_half_even (x / u)) :: rat)
      \<and> (of_int (round_half_even (x / u)) :: rat) \<le> of_int (B * 2 ^ nat j)"
    by (simp only: of_int_le_iff)
  then show ?thesis
    by (simp add: fr u field_simps)
qed

lemma fl_round_nat:
  assumes "n < 2 ^ 53"
  shows "fl_round (of_nat n) = of_nat n"
proof -
  have "(of_nat n :: rat) < 2 ^ 53"
    using assms by (metis of_nat_less_iff of_nat_numeral of_nat_power)
  with fl_round_between[of "int n" "of_nat n" "int n"]
  have "of_int (int n) \<le> fl_round (of_nat n) \<and> fl_round (of_nat n) \<le> of_int (int n)"
    by simp
  then show ?thesis by simp
qed

lemma fl_finite_small: "\<bar>x\<bar> < 2 ^ 53 \<Longrightarrow> fl_finite x"
proof (cases "x = 0")
  case True
  then show ?thesis by (simp add: fl_finite_def)
next
  case False
  assume "\<bar>x\<bar> < 2 ^ 53"
  with False have "ilog2 \<bar>x\<bar> \<le> 52" by (intro ilog2_small) simp_all
  then show ?thesis by (simp add: fl_finite_def)
qed

text \<open>The kept count for a fraction between 0 and 1 and a population below \<open>2 ^ 53\<close>.\<close>

lemma kept_count_unit:
  assumes "0 \<le> fk" "fk \<le> 1" "n < 2 ^ 53"
  defines "f \<equiv> fl_round fk"
  defines "c \<equiv> \<lfloor>fl_round (of_nat n * f)\<rfloor>"
  shows "kept_count n fk = Inr c" "0 \<le> f" "f \<le> 1"
    "\<lfloor>of_nat n * f\<rfloor> \<le> c" "c \<le> \<lfloor>of_nat n * f\<rfloor> + 1" "0 \<le> c" "c \<le> int n"
proof -
  have "of_int 0 \<le> fl_round fk \<and> fl_round fk \<le> of_int 1"
    using assms(1,2) by (intro fl_round_between) simp_all
  then show f: "0 \<le> f" "f \<le> 1" by (simp_all add: f_def)
  have nn: "(of_nat n :: rat) < 2 ^ 53"
    using assms(3) by (metis of_nat_less_iff of_nat_numeral of_nat_power)
  define x where "x = of_nat n * f"
  have x0: "0 \<le> x" using f(1) by (simp add: x_def)
  have "x \<le> of_nat n * 1" unfolding x_def by (rule mult_left_mono) (use f(2) in simp_all)
  then have xn: "x \<le> of_nat n" by simp
  with nn have x53: "x < 2 ^ 53" by linarith
  have k0: "0 \<le> \<lfloor>x\<rfloor>" using x0 by simp
  have b1: "of_int \<lfloor>x\<rfloor> \<le> fl_round x \<and> fl_round x \<le> of_int (\<lfloor>x\<rfloor> + 1)"
    using k0 x53 by (intro fl_round_between) (simp_all, linarith)
  have b2: "of_int 0 \<le> fl_round x \<and> fl_round x \<le> of_int (int n)"
    using x0 xn x53 by (intro fl_round_between) simp_all
  from b1 show "\<lfloor>of_nat n * f\<rfloor> \<le> c" "c \<le> \<lfloor>of_nat n * f\<rfloor> + 1"
    unfolding c_def x_def[symmetric] by (auto simp: le_floor_iff floor_le_iff)
  from b2 show "0 \<le> c" "c \<le> int n"
    unfolding c_def x_def[symmetric] by (auto simp: le_floor_iff floor_le_iff)
  have fa: "fl_finite (of_nat n)" using nn by (intro fl_finite_small) simp
  have one: "(1::rat) < 2 ^ 53" by simp
  from f one have "\<bar>f\<bar> < 2 ^ 53" by linarith
  then have ff: "fl_finite f" by (rule fl_finite_small)
  from b2 have "0 \<le> fl_round x" "fl_round x \<le> of_nat n" by simp_all
  with nn have "\<bar>fl_round x\<bar> < 2 ^ 53" by linarith
  then have fp: "fl_finite (fl_round x)" by (rule fl_finite_small)
  from b2 have "py_int (fl_round x) = \<lfloor>fl_round x\<rfloor>" by (simp add: py_int_def)
  with fa ff fp show "kept_count n fk = Inr c"
    by (simp add: kept_count_def Let_def fl_round_nat[OF assms(3)] f_def c_def x_def)
qed

text \<open>
  C6, as amended. When the driver ends a sort during which no rating was written,
  \<open>fraction_kept\<close> lies between 0 and 1 and the population \<open>P\<close> is below \<open>2 ^ 53\<close>, its step
  replaces the population by \<open>kept\<close>, the first \<open>c\<close> agents of the population ranked by
  descending rating. Here \<open>c\<close> is \<open>int(P * f)\<close> as binary64 arithmetic computes it, \<open>f\<close> being the
  binary64 value of \<open>fraction_kept\<close>: the product is rounded before it is truncated, so \<open>c\<close> is
  \<open>\<lfloor>P * f\<rfloor>\<close> or one more. The ranking is a permutation of the population, \<open>kept\<close> has exactly
  \<open>c\<close> agents, is itself in descending order, and together with the discarded tail makes up
  the ranking; no kept agent is rated below a discarded one.
\<close>

theorem select_keeps_ranked_prefix:
  assumes "d_pc s = D_sort g" "\<not> touched s"
    and "0 \<le> fraction_kept cfg" "fraction_kept cfg \<le> 1" "length (players s) < 2 ^ 53"
  defines "P \<equiv> length (players s)"
  defines "f \<equiv> fl_round (fraction_kept cfg)"
  defines "c \<equiv> \<lfloor>fl_round (of_nat P * f)\<rfloor>"
  defines "ranked \<equiv> sort_desc (elo s) (players s)"
  defines "kept \<equiv> take (nat c) ranked"
  shows "step cfg (Driver perm k) s = Some (s\<lparr>players := kept, d_pc := D_repro g 0\<rparr>)
       \<and> \<lfloor>of_nat P * f\<rfloor> \<le> c \<and> c \<le> \<lfloor>of_nat P * f\<rfloor> + 1
       \<and> int (length kept) = c
       \<and> mset ranked = mset (players s)
       \<and> sorted_wrt (\<lambda>a b. elo s b \<le> elo s a) ranked
       \<and> kept @ drop (length kept) ranked = ranked
       \<and> sorted_wrt (\<lambda>a b. elo s b \<le> elo s a) kept
       \<and> (\<forall>a \<in> set kept. \<forall>b \<in> set (drop (length kept) ranked). elo s b \<le> elo s a)"
proof -
  note kc = kept_count_unit[OF assms(3,4,5)]
  have cnt: "kept_count (length (players s)) (fraction_kept cfg) = Inr c"
    using kc(1) by (simp add: c_def f_def P_def)
  have c0: "0 \<le> c" and cP: "c \<le> int P"
    using kc(6,7) by (simp_all add: c_def f_def P_def)
  have bounds: "\<lfloor>of_nat P * f\<rfloor> \<le> c" "c \<le> \<lfloor>of_nat P * f\<rfloor> + 1"
    using kc(4,5) by (simp_all add: c_def f_def P_def)
  have st: "step cfg (Driver perm k) s = Some (s\<lparr>players := kept, d_pc := D_repro g 0\<rparr>)"
    using assms(1,2) cnt c0
    by (simp add: driver_step_def Let_def py_prefix_def kept_def ranked_def)
  have ms: "mset ranked = mset (players s)"
    by (simp add: ranked_def sort_desc_mset)
  have so: "sorted_wrt (\<lambda>a b. elo s b \<le> elo s a) ranked"
    by (simp add: ranked_def sort_desc_sorted)
  have lr: "length ranked = P"
    using ms by (metis P_def size_mset)
  have lk: "length kept = nat c"
    using cP c0 lr by (simp add: kept_def)
  then have len: "int (length kept) = c" using c0 by simp
  have ap: "kept @ drop (length kept) ranked = ranked"
    by (subst lk) (simp add: kept_def)
  from so ap have "sorted_wrt (\<lambda>a b. elo s b \<le> elo s a) (kept @ drop (length kept) ranked)"
    by simp
  then have "sorted_wrt (\<lambda>a b. elo s b \<le> elo s a) kept
      \<and> (\<forall>a \<in> set kept. \<forall>b \<in> set (drop (length kept) ranked). elo s b \<le> elo s a)"
    unfolding sorted_wrt_append by blast
  with st bounds len ms so ap show ?thesis by blast
qed

theorem select_keeps_ranked_prefix_witness:
  "d_pc at_sort = D_sort 0 \<and> \<not> touched at_sort
   \<and> 0 \<le> fraction_kept cfg_four \<and> fraction_kept cfg_four \<le> 1
   \<and> length (players at_sort) < 2 ^ 53
   \<and> sort_desc (elo at_sort) (players at_sort) = [0, 3, 2, 1]
   \<and> step cfg_four (Driver [] 0) at_sort
       = Some (at_sort\<lparr>players := [0, 3], d_pc := D_repro 0 0\<rparr>)"
proof -
  have a: "d_pc at_sort = D_sort 0" "\<not> touched at_sort"
    by (simp_all add: at_sort_def init_def)
  have b: "0 \<le> fraction_kept cfg_four" "fraction_kept cfg_four \<le> 1"
    by (simp_all add: cfg_four_def)
  have l: "length (players at_sort) < 2 ^ 53" by (simp add: at_sort_def)
  have c: "sort_desc (elo at_sort) (players at_sort) = [0, 3, 2, 1]"
    by (simp add: at_sort_def sort_desc_def)
  have d: "\<lfloor>fl_round (rat_of_nat (length (players at_sort))
              * fl_round (fraction_kept cfg_four))\<rfloor> = 2"
    by code_simp
  from select_keeps_ranked_prefix[OF a b l, of "[]" 0]
  have "step cfg_four (Driver [] 0) at_sort
       = Some (at_sort\<lparr>players := [0, 3], d_pc := D_repro 0 0\<rparr>)"
    unfolding c d by simp
  with a b l c show ?thesis by simp
qed

text \<open>
  C6 as stated, with the count \<open>\<lfloor>P * fraction_kept\<rfloor>\<close>, fails. With ten agents and the
  binary64 value of 0.7 a run keeps 7 agents where the floor is 6. With fifty agents and the
  decimal 0.58 the step keeps 28 where the floor is 29.
\<close>

theorem select_count_counterexample:
  "map_option survivors (exec cfg_ten (quiet_round 10) (init cfg_ten)) = Some (D_repro 0 0, 7)
   \<and> \<lfloor>of_int (population_size cfg_ten) * fraction_kept cfg_ten\<rfloor> = 6
   \<and> fl_round (fraction_kept cfg_ten) = fraction_kept cfg_ten
   \<and> map_option survivors (step cfg_fifty (Driver [] 0) at_sort_fifty) = Some (D_repro 0 0, 28)
   \<and> \<lfloor>of_int (population_size cfg_fifty) * fraction_kept cfg_fifty\<rfloor> = 29"
  by code_simp


subsection \<open>The pair take (lines 28 to 33)\<close>

lemma need_outside: "\<not> in_cs w \<Longrightarrow> need w = 0"
  by (cases w) simp_all

lemma linv_update:
  assumes "linv lk n ws" "i < length ws" "worker_ok lk' n' i w'"
    and "\<And>j. j < length ws \<Longrightarrow> j \<noteq> i \<Longrightarrow> worker_ok lk n j (ws ! j)
            \<Longrightarrow> worker_ok lk' n' j (ws ! j)"
    and "\<And>h. lk' = Some h \<Longrightarrow> h < length ws"
  shows "linv lk' n' (ws[i := w'])"
  unfolding linv_def
proof (intro conjI allI impI)
  fix h assume "lk' = Some h"
  then show "h < length (ws[i := w'])" using assms(5) by simp
next
  fix j assume j: "j < length (ws[i := w'])"
  show "worker_ok lk' n' j (ws[i := w'] ! j)"
  proof (cases "j = i")
    case True
    with assms(2,3) show ?thesis by simp
  next
    case False
    from j assms(1) have "worker_ok lk n j (ws ! j)" by (simp add: linv_def)
    with assms(4)[of j] j False show ?thesis by simp
  qed
qed

lemma linv_self: "linv lk n ws \<Longrightarrow> i < length ws \<Longrightarrow> worker_ok lk n i (ws ! i)"
  by (simp add: linv_def)

lemma linv_holder: "linv lk n ws \<Longrightarrow> lk = Some h \<Longrightarrow> h < length ws"
  by (simp add: linv_def)

lemma linv_grow: "linv lk n ws \<Longrightarrow> n \<le> n' \<Longrightarrow> linv lk n' ws"
  by (auto simp: linv_def worker_ok_def)

lemma linv_spawn: "linv lk n ws \<Longrightarrow> linv lk n (ws @ [W_outer])"
  by (auto simp: linv_def worker_ok_def nth_append less_Suc_eq)

lemma lock_inv_driver:
  assumes "lock_inv s" "driver_step cfg perm k s = Some s'"
  shows "lock_inv s'"
  using assms
  by (auto simp: lock_inv_def driver_step_def reproduce_step_def Let_def
      intro: linv_spawn linv_grow[where n = "length (queue s)"]
      split: dpc.splits if_splits sum.splits)

lemma lock_inv_worker:
  assumes "lock_inv s" "worker_step i oc s = Some s'"
  shows "lock_inv s'"
proof -
  from assms(2) have i: "i < length (workers s)"
    by (simp add: worker_step_def split: if_splits)
  from assms(1) have L: "linv (lock s) (length (queue s)) (workers s)"
    by (simp add: lock_inv_def)
  note me = linv_self[OF L i]
  note up = linv_update[OF L i]
  show ?thesis
  proof (cases "workers s ! i")
    case W_outer
    with assms(2) i have s': "s' = set_pc i (if quit s then W_done else W_inner) s"
      by (simp add: worker_step_def)
    have "linv (lock s) (length (queue s)) ((workers s)[i := if quit s then W_done else W_inner])"
      using me W_outer by (intro up) (auto simp: worker_ok_def dest: linv_holder[OF L])
    then show ?thesis by (simp add: s' lock_inv_def set_pc_def)
  next
    case W_inner
    with assms(2) i
    have s': "s' = set_pc i (if length (queue s) > 1 then W_acquire else W_outer) s"
      by (simp add: worker_step_def)
    have "linv (lock s) (length (queue s))
        ((workers s)[i := if length (queue s) > 1 then W_acquire else W_outer])"
      using me W_inner by (intro up) (auto simp: worker_ok_def dest: linv_holder[OF L])
    then show ?thesis by (simp add: s' lock_inv_def set_pc_def)
  next
    case W_acquire
    with assms(2) i have f: "lock s = None" and s': "s' = set_pc i W_check (s\<lparr>lock := Some i\<rparr>)"
      by (auto simp: worker_step_def split: option.splits)
    have "linv (Some i) (length (queue s)) ((workers s)[i := W_check])"
      using i f by (intro up) (auto simp: worker_ok_def)
    then show ?thesis by (simp add: s' lock_inv_def set_pc_def)
  next
    case W_check
    with me have h: "lock s = Some i" by (simp add: worker_ok_def)
    show ?thesis
    proof (cases "length (queue s) < 2")
      case True
      with assms(2) i W_check have s': "s' = set_pc i W_outer (s\<lparr>lock := None\<rparr>)"
        by (simp add: worker_step_def)
      have "linv None (length (queue s)) ((workers s)[i := W_outer])"
        using h by (intro up) (auto simp: worker_ok_def need_outside)
      then show ?thesis by (simp add: s' lock_inv_def set_pc_def)
    next
      case False
      with assms(2) i W_check have s': "s' = set_pc i W_get1 s"
        by (simp add: worker_step_def)
      have "linv (lock s) (length (queue s)) ((workers s)[i := W_get1])"
        using h False i by (intro up) (auto simp: worker_ok_def)
      then show ?thesis by (simp add: s' lock_inv_def set_pc_def)
    qed
  next
    case W_get1
    with me have h: "lock s = Some i" and n: "2 \<le> length (queue s)"
      by (simp_all add: worker_ok_def)
    from assms(2) i W_get1 obtain p q where q: "queue s = p # q"
      and s': "s' = set_pc i (W_get2 p) (s\<lparr>queue := q\<rparr>)"
      by (auto simp: worker_step_def split: list.splits)
    have "linv (lock s) (length q) ((workers s)[i := W_get2 p])"
      using h n q i by (intro up) (auto simp: worker_ok_def need_outside)
    then show ?thesis by (simp add: s' lock_inv_def set_pc_def)
  next
    case (W_get2 p1)
    with me have h: "lock s = Some i" by (simp add: worker_ok_def)
    from assms(2) i W_get2 obtain p q where q: "queue s = p # q"
      and s': "s' = set_pc i (W_release p1 p) (s\<lparr>queue := q\<rparr>)"
      by (auto simp: worker_step_def split: list.splits)
    have "linv (lock s) (length q) ((workers s)[i := W_release p1 p])"
      using h q i by (intro up) (auto simp: worker_ok_def need_outside)
    then show ?thesis by (simp add: s' lock_inv_def set_pc_def)
  next
    case (W_release p1 p2)
    with me have h: "lock s = Some i" by (simp add: worker_ok_def)
    from assms(2) i W_release have s': "s' = set_pc i (W_play p1 p2) (s\<lparr>lock := None\<rparr>)"
      by (simp add: worker_step_def)
    have "linv None (length (queue s)) ((workers s)[i := W_play p1 p2])"
      using h by (intro up) (auto simp: worker_ok_def need_outside)
    then show ?thesis by (simp add: s' lock_inv_def set_pc_def)
  next
    case (W_play p1 p2)
    with me have h: "lock s \<noteq> Some i" by (simp add: worker_ok_def)
    from assms(2) i W_play have "\<exists>w'. \<not> in_cs w' \<and> s' = set_pc i w' s"
      by (cases oc) (auto simp: worker_step_def intro: exI[of _ "W_crashed p1 p2"]
          exI[of _ "W_update p1 p2"])
    then obtain w' where w': "\<not> in_cs w'" and s': "s' = set_pc i w' s"
      by blast
    have "linv (lock s) (length (queue s)) ((workers s)[i := w'])"
      using h w' by (intro up) (auto simp: worker_ok_def need_outside dest: linv_holder[OF L])
    then show ?thesis by (simp add: s' lock_inv_def set_pc_def)
  next
    case (W_update p1 p2)
    with me have h: "lock s \<noteq> Some i" by (simp add: worker_ok_def)
    have "\<exists>w' t. \<not> in_cs w' \<and> s' = set_pc i w' t
        \<and> lock t = lock s \<and> queue t = queue s \<and> workers t = workers s"
    proof (cases oc)
      case Crash
      with assms(2) i W_update have "s' = set_pc i (W_crashed p1 p2) s"
        by (simp add: worker_step_def)
      then show ?thesis by (intro exI[of _ "W_crashed p1 p2"] exI[of _ s]) simp
    next
      case (Result r1 r2)
      with assms(2) i W_update have "s' = set_pc i W_inner
          (s\<lparr>elo := (elo s)(p1 := r1, p2 := r2), played := played s @ [(p1, p2)],
            touched := True\<rparr>)"
        by (simp add: worker_step_def)
      then show ?thesis
        by (intro exI[of _ W_inner]
            exI[of _ "s\<lparr>elo := (elo s)(p1 := r1, p2 := r2), played := played s @ [(p1, p2)],
              touched := True\<rparr>"])
           simp
    qed
    then obtain w' t where w': "\<not> in_cs w'" and s': "s' = set_pc i w' t"
      and t: "lock t = lock s" "queue t = queue s" "workers t = workers s"
      by blast
    have "linv (lock s) (length (queue s)) ((workers s)[i := w'])"
      using h w' by (intro up) (auto simp: worker_ok_def need_outside dest: linv_holder[OF L])
    then show ?thesis by (simp add: s' t lock_inv_def set_pc_def)
  next
    case W_done
    with assms(2) i show ?thesis by (simp add: worker_step_def)
  next
    case (W_crashed p1 p2)
    with assms(2) i show ?thesis by (simp add: worker_step_def)
  qed
qed

lemma lock_inv_reach:
  assumes "exec cfg es (init cfg) = Some s"
  shows "lock_inv s"
proof (rule exec_invariant[where I = lock_inv, OF _ _ assms])
  show "lock_inv (init cfg)" by (simp add: lock_inv_def linv_def init_def)
next
  fix e s s' assume "lock_inv s" "step cfg e s = Some s'"
  then show "lock_inv s'"
    by (cases e) (auto intro: lock_inv_driver lock_inv_worker)
qed

text \<open>
  C2. In every state a run can reach: a worker inside the critical section holds the lock and
  no other worker is inside; a worker that finds fewer than two agents leaves with none and
  the queue unchanged; a worker about to take its first agent finds at least two agents in the
  queue, and a worker holding one agent finds its partner in the queue, so its second
  \<open>get\<close> does not block and it leaves the critical section with a pair.
\<close>

theorem pair_take_atomic:
  assumes "exec cfg es (init cfg) = Some s" "i < length (workers s)"
  shows "(in_cs (workers s ! i) \<longrightarrow>
            lock s = Some i \<and> (\<forall>j < length (workers s). j \<noteq> i \<longrightarrow> \<not> in_cs (workers s ! j)))
       \<and> (workers s ! i = W_check \<longrightarrow>
            step cfg (Worker i oc) s
              = Some (if length (queue s) < 2 then set_pc i W_outer (s\<lparr>lock := None\<rparr>)
                      else set_pc i W_get1 s))
       \<and> (workers s ! i = W_get1 \<longrightarrow>
            (\<exists>p1 p2 q. queue s = p1 # p2 # q
               \<and> step cfg (Worker i oc) s = Some (set_pc i (W_get2 p1) (s\<lparr>queue := p2 # q\<rparr>))))
       \<and> (\<forall>p1. workers s ! i = W_get2 p1 \<longrightarrow>
            (\<exists>p2 q. queue s = p2 # q
               \<and> step cfg (Worker i oc) s = Some (set_pc i (W_release p1 p2) (s\<lparr>queue := q\<rparr>))))"
proof -
  have "lock_inv s" by (rule lock_inv_reach[OF assms(1)])
  then have L: "linv (lock s) (length (queue s)) (workers s)" by (simp add: lock_inv_def)
  have ok: "worker_ok (lock s) (length (queue s)) j (workers s ! j)" if "j < length (workers s)" for j
    using L that by (simp add: linv_def)
  have a: "in_cs (workers s ! i) \<longrightarrow>
            lock s = Some i \<and> (\<forall>j < length (workers s). j \<noteq> i \<longrightarrow> \<not> in_cs (workers s ! j))"
  proof (intro impI conjI allI)
    assume c: "in_cs (workers s ! i)"
    with ok[OF assms(2)] show h: "lock s = Some i" by (simp add: worker_ok_def)
    fix j assume "j < length (workers s)" "j \<noteq> i"
    with ok[of j] h show "\<not> in_cs (workers s ! j)" by (simp add: worker_ok_def)
  qed
  have b: "workers s ! i = W_check \<longrightarrow>
            step cfg (Worker i oc) s
              = Some (if length (queue s) < 2 then set_pc i W_outer (s\<lparr>lock := None\<rparr>)
                      else set_pc i W_get1 s)"
    using assms(2) by (simp add: worker_step_def)
  have c: "workers s ! i = W_get1 \<longrightarrow>
            (\<exists>p1 p2 q. queue s = p1 # p2 # q
               \<and> step cfg (Worker i oc) s = Some (set_pc i (W_get2 p1) (s\<lparr>queue := p2 # q\<rparr>)))"
  proof
    assume w: "workers s ! i = W_get1"
    with ok[OF assms(2)] have "2 \<le> length (queue s)" by (simp add: worker_ok_def)
    then obtain p1 p2 q where q: "queue s = p1 # p2 # q"
      by (cases "queue s"; cases "tl (queue s)") auto
    with w assms(2) show "\<exists>p1 p2 q. queue s = p1 # p2 # q
        \<and> step cfg (Worker i oc) s = Some (set_pc i (W_get2 p1) (s\<lparr>queue := p2 # q\<rparr>))"
      by (simp add: worker_step_def)
  qed
  have d: "\<forall>p1. workers s ! i = W_get2 p1 \<longrightarrow>
            (\<exists>p2 q. queue s = p2 # q
               \<and> step cfg (Worker i oc) s = Some (set_pc i (W_release p1 p2) (s\<lparr>queue := q\<rparr>)))"
  proof (intro allI impI)
    fix p1 assume w: "workers s ! i = W_get2 p1"
    with ok[OF assms(2)] have "1 \<le> length (queue s)" by (simp add: worker_ok_def)
    then obtain p2 q where q: "queue s = p2 # q"
      by (cases "queue s") auto
    with w assms(2) show "\<exists>p2 q. queue s = p2 # q
        \<and> step cfg (Worker i oc) s = Some (set_pc i (W_release p1 p2) (s\<lparr>queue := q\<rparr>))"
      by (simp add: worker_step_def)
  qed
  from a b c d show ?thesis by blast
qed

theorem pair_take_atomic_witness:
  "\<exists>s. exec cfg_two (to_wait_two @ take_first) (init cfg_two) = Some s
     \<and> workers s = [W_get2 0] \<and> queue s = [1] \<and> lock s = Some 0
     \<and> step cfg_two (Worker 0 Crash) s = Some (set_pc 0 (W_release 0 1) (s\<lparr>queue := []\<rparr>))"
proof -
  obtain s where s: "exec cfg_two (to_wait_two @ take_first) (init cfg_two) = Some s"
    by (simp add: cfg_two_def to_wait_two_def take_first_def run_defs numeral_eq_Suc)
  from s have w: "workers s = [W_get2 0]" and q: "queue s = [1]"
    by (auto simp add: cfg_two_def to_wait_two_def take_first_def run_defs numeral_eq_Suc)
  from w have i: "0 < length (workers s)" by simp
  from pair_take_atomic[OF s i, of Crash] w q
  have "lock s = Some 0"
    and "step cfg_two (Worker 0 Crash) s = Some (set_pc 0 (W_release 0 1) (s\<lparr>queue := []\<rparr>))"
    by simp_all
  with s w q show ?thesis by blast
qed

subsection \<open>Steps of a worker, case by case\<close>

lemma worker_step_cases:
  assumes "worker_step i oc s = Some s'"
  obtains
    (outer) "i < length (workers s)" "workers s ! i = W_outer"
      "s' = set_pc i (if quit s then W_done else W_inner) s"
  | (inner) "i < length (workers s)" "workers s ! i = W_inner"
      "s' = set_pc i (if length (queue s) > 1 then W_acquire else W_outer) s"
  | (acquire) "i < length (workers s)" "workers s ! i = W_acquire" "lock s = None"
      "s' = set_pc i W_check (s\<lparr>lock := Some i\<rparr>)"
  | (leave) "i < length (workers s)" "workers s ! i = W_check" "length (queue s) < 2"
      "s' = set_pc i W_outer (s\<lparr>lock := None\<rparr>)"
  | (enter) "i < length (workers s)" "workers s ! i = W_check" "2 \<le> length (queue s)"
      "s' = set_pc i W_get1 s"
  | (get1) p q where "i < length (workers s)" "workers s ! i = W_get1" "queue s = p # q"
      "s' = set_pc i (W_get2 p) (s\<lparr>queue := q\<rparr>)"
  | (get2) p1 p q where "i < length (workers s)" "workers s ! i = W_get2 p1" "queue s = p # q"
      "s' = set_pc i (W_release p1 p) (s\<lparr>queue := q\<rparr>)"
  | (release) p1 p2 where "i < length (workers s)" "workers s ! i = W_release p1 p2"
      "s' = set_pc i (W_play p1 p2) (s\<lparr>lock := None\<rparr>)"
  | (play) p1 p2 where "i < length (workers s)" "workers s ! i = W_play p1 p2"
      "s' = set_pc i (W_update p1 p2) s"
  | (crash) p1 p2 where "i < length (workers s)"
      "workers s ! i = W_play p1 p2 \<or> workers s ! i = W_update p1 p2"
      "s' = set_pc i (W_crashed p1 p2) s"
  | (update) p1 p2 r1 r2 where "i < length (workers s)" "workers s ! i = W_update p1 p2"
      "s' = set_pc i W_inner
         (s\<lparr>elo := (elo s)(p1 := r1, p2 := r2), played := played s @ [(p1, p2)],
            touched := True\<rparr>)"
proof -
  from assms have i: "i < length (workers s)"
    by (simp add: worker_step_def split: if_splits)
  show ?thesis
  proof (cases "workers s ! i")
    case W_outer
    with assms i have "s' = set_pc i (if quit s then W_done else W_inner) s"
      by (simp add: worker_step_def)
    then show ?thesis by (rule outer[OF i W_outer])
  next
    case W_inner
    with assms i have "s' = set_pc i (if length (queue s) > 1 then W_acquire else W_outer) s"
      by (simp add: worker_step_def)
    then show ?thesis by (rule inner[OF i W_inner])
  next
    case W_acquire
    with assms i have "lock s = None" and "s' = set_pc i W_check (s\<lparr>lock := Some i\<rparr>)"
      by (auto simp: worker_step_def split: option.splits)
    then show ?thesis by (rule acquire[OF i W_acquire])
  next
    case W_check
    show ?thesis
    proof (cases "length (queue s) < 2")
      case True
      with assms i W_check have "s' = set_pc i W_outer (s\<lparr>lock := None\<rparr>)"
        by (simp add: worker_step_def)
      then show ?thesis by (rule leave[OF i W_check True])
    next
      case False
      with assms i W_check have "s' = set_pc i W_get1 s"
        by (simp add: worker_step_def)
      moreover from False have "2 \<le> length (queue s)" by simp
      ultimately show ?thesis using enter[OF i W_check] by blast
    qed
  next
    case W_get1
    show ?thesis
    proof (cases "queue s")
      case Nil
      with assms i W_get1 show ?thesis by (simp add: worker_step_def)
    next
      case (Cons p q)
      with assms i W_get1 have "s' = set_pc i (W_get2 p) (s\<lparr>queue := q\<rparr>)"
        by (simp add: worker_step_def)
      then show ?thesis by (rule get1[OF i W_get1 Cons])
    qed
  next
    case (W_get2 p1)
    show ?thesis
    proof (cases "queue s")
      case Nil
      with assms i W_get2 show ?thesis by (simp add: worker_step_def)
    next
      case (Cons p q)
      with assms i W_get2 have "s' = set_pc i (W_release p1 p) (s\<lparr>queue := q\<rparr>)"
        by (simp add: worker_step_def)
      then show ?thesis by (rule get2[OF i W_get2 Cons])
    qed
  next
    case (W_release p1 p2)
    with assms i have "s' = set_pc i (W_play p1 p2) (s\<lparr>lock := None\<rparr>)"
      by (simp add: worker_step_def)
    then show ?thesis by (rule release[OF i W_release])
  next
    case (W_play p1 p2)
    show ?thesis
    proof (cases oc)
      case Crash
      with assms i W_play have "s' = set_pc i (W_crashed p1 p2) s"
        by (simp add: worker_step_def)
      moreover from W_play
      have "workers s ! i = W_play p1 p2 \<or> workers s ! i = W_update p1 p2" by simp
      ultimately show ?thesis using crash[OF i] by blast
    next
      case (Result r1 r2)
      with assms i W_play have "s' = set_pc i (W_update p1 p2) s"
        by (simp add: worker_step_def)
      then show ?thesis by (rule play[OF i W_play])
    qed
  next
    case (W_update p1 p2)
    show ?thesis
    proof (cases oc)
      case Crash
      with assms i W_update have "s' = set_pc i (W_crashed p1 p2) s"
        by (simp add: worker_step_def)
      moreover from W_update
      have "workers s ! i = W_play p1 p2 \<or> workers s ! i = W_update p1 p2" by simp
      ultimately show ?thesis using crash[OF i] by blast
    next
      case (Result r1 r2)
      with assms i W_update have "s' = set_pc i W_inner
         (s\<lparr>elo := (elo s)(p1 := r1, p2 := r2), played := played s @ [(p1, p2)],
            touched := True\<rparr>)"
        by (simp add: worker_step_def)
      then show ?thesis by (rule update[OF i W_update])
    qed
  next
    case W_done
    with assms i show ?thesis by (simp add: worker_step_def)
  next
    case (W_crashed p1 p2)
    with assms i show ?thesis by (simp add: worker_step_def)
  qed
qed

subsection \<open>The wait for the queue to drain (lines 58 and 59)\<close>

lemma worker_step_queue:
  assumes "worker_step i oc s = Some s'"
  shows "length (queue s') \<le> length (queue s)"
  using assms by (cases rule: worker_step_cases) (simp_all add: set_pc_def)

lemma drain_inv_driver:
  assumes "drain_inv s" "driver_step cfg perm k s = Some s'"
  shows "drain_inv s'"
proof (cases "d_pc s")
  case (D_put g n j)
  with assms show ?thesis
    by (auto simp: drain_inv_def driver_step_def split: if_splits)
next
  case (D_wait g n)
  with assms show ?thesis
    by (auto simp: drain_inv_def driver_step_def split: if_splits)
next
  case (D_sort g)
  with assms show ?thesis
    by (auto simp: drain_inv_def driver_step_def Let_def split: if_splits sum.splits)
next
  case (D_repro g i)
  with assms show ?thesis
    by (auto simp: drain_inv_def driver_step_def reproduce_step_def Let_def split: if_splits)
qed (use assms in \<open>auto simp: drain_inv_def driver_step_def split: if_splits\<close>)

lemma drain_inv_step:
  assumes "drain_inv s" "step cfg e s = Some s'"
  shows "drain_inv s'"
proof (cases e)
  case (Driver perm k)
  with assms show ?thesis by (auto intro: drain_inv_driver)
next
  case (Worker i oc)
  with assms have w: "worker_step i oc s = Some s'" by simp
  from worker_step_queue[OF w] worker_step_frame(1)[OF w] assms(1) show ?thesis
    by (auto simp: drain_inv_def split: dpc.splits)
qed

lemma drain_inv_reach:
  assumes "exec cfg es (init cfg) = Some s"
  shows "drain_inv s"
proof (rule exec_invariant[where I = drain_inv, OF _ _ assms])
  show "drain_inv (init cfg)" by (simp add: drain_inv_def init_def)
qed (rule drain_inv_step)

text \<open>
  C3, as amended. In the wait loop the driver polls the queue size: while the queue holds two
  or more agents its step changes nothing, and as soon as it reads a size of at most one it
  moves on to the next sub-generation. Hence the driver never begins a sub-generation with
  more than one agent left in the queue, and after its \<open>j\<close>-th \<open>put\<close> the queue holds at most
  \<open>j + 1\<close> agents. Nothing is said of the matches whose pairs have left the queue.
\<close>

theorem await_drain_polls:
  assumes "exec cfg es (init cfg) = Some s"
  shows "(\<forall>g n. d_pc s = D_wait g n \<longrightarrow>
            step cfg (Driver perm k) s
              = Some (if 1 < length (queue s) then s else s\<lparr>d_pc := D_sub g (Suc n)\<rparr>))
       \<and> (\<forall>g n. d_pc s = D_sub g n \<longrightarrow> length (queue s) \<le> 1)
       \<and> (\<forall>g n j. d_pc s = D_put g n j \<longrightarrow> length (queue s) \<le> Suc j)"
  using drain_inv_reach[OF assms]
  by (auto simp: drain_inv_def driver_step_def split: dpc.splits)

theorem await_drain_polls_witness:
  "(\<exists>s. exec cfg_two to_wait_two (init cfg_two) = Some s
        \<and> d_pc s = D_wait 0 0 \<and> queue s = [0, 1]
        \<and> step cfg_two (Driver [] 0) s = Some s)
   \<and> (\<exists>s. exec cfg_two_rounds (to_wait_two @ take_pair @ [Driver [] 0]) (init cfg_two_rounds)
            = Some s
        \<and> d_pc s = D_sub 0 1 \<and> length (queue s) \<le> 1)
   \<and> (\<exists>s. exec cfg_two_rounds (to_wait_two @ take_pair @ next_round) (init cfg_two_rounds)
            = Some s
        \<and> d_pc s = D_put 0 1 1 \<and> length (queue s) \<le> 2)"
proof -
  obtain s1 where s1: "exec cfg_two to_wait_two (init cfg_two) = Some s1"
    by (simp add: cfg_two_def to_wait_two_def run_defs numeral_eq_Suc)
  from s1 have p1: "d_pc s1 = D_wait 0 0" and q1: "queue s1 = [0, 1]"
    by (auto simp add: cfg_two_def to_wait_two_def run_defs numeral_eq_Suc)
  from await_drain_polls[OF s1, of "[]" 0] p1 q1
  have a: "step cfg_two (Driver [] 0) s1 = Some s1" by simp
  obtain s2 where s2: "exec cfg_two_rounds (to_wait_two @ take_pair @ [Driver [] 0])
      (init cfg_two_rounds) = Some s2"
    by (simp add: cfg_two_rounds_def to_wait_two_def take_pair_def run_defs numeral_eq_Suc)
  from s2 have p2: "d_pc s2 = D_sub 0 1"
    by (auto simp add: cfg_two_rounds_def to_wait_two_def take_pair_def run_defs numeral_eq_Suc)
  from await_drain_polls[OF s2, of "[]" 0] p2
  have b: "length (queue s2) \<le> 1" by simp
  obtain s3 where s3: "exec cfg_two_rounds (to_wait_two @ take_pair @ next_round)
      (init cfg_two_rounds) = Some s3"
    by (simp add: cfg_two_rounds_def to_wait_two_def take_pair_def next_round_def run_defs
        numeral_eq_Suc)
  from s3 have p3: "d_pc s3 = D_put 0 1 1"
    by (auto simp add: cfg_two_rounds_def to_wait_two_def take_pair_def next_round_def run_defs
        numeral_eq_Suc)
  from await_drain_polls[OF s3, of "[]" 0] p3
  have c: "length (queue s3) \<le> 2" by simp
  from s1 p1 q1 a s2 p2 b s3 p3 c show ?thesis by blast
qed

text \<open>
  C3 as stated fails: the first agent of the second sub-generation is in the queue while the
  only match of the first sub-generation is still being played and no rating has been
  updated.
\<close>

theorem enqueue_before_completion_counterexample:
  "map_option view
     (exec cfg_two_rounds (to_wait_two @ take_pair @ next_round) (init cfg_two_rounds))
   = Some (D_put 0 1 1, [0, 1], [W_play 0 1], [0], [])"
  by code_simp

subsection \<open>Shutdown (lines 112 to 116)\<close>














subsection \<open>Failure of a match (lines 34 and 35)\<close>







end
